theory Spec2Isabelle
  imports Complex_Main "HOL-Library.Word"
begin

section \<open>Bytes, characters and Python's string predicates\<close>

text \<open>
  The functions of the extractor scripts that locate slot tables and Pascal strings, split
  name blobs into tokens, cut the tokens into blocks and rank candidate number tables,
  as functions of HOL, and the properties they have.

  The input file is a Python \<open>bytes\<close> object: a list of 8-bit values. Every string that
  these functions receive is obtained from such bytes with
  \<open>decode("cp437", errors="ignore")\<close>. Python's cp437 table maps each of the 256 byte values
  to one character, so nothing is ever ignored and a decoded string has one character per
  byte. A character is therefore represented by the \<^typ>\<open>char\<close> whose code is the byte it
  was decoded from; for codes below 128 this is the ASCII character itself, which is what
  the string literals of the source denote.
\<close>

type_synonym byte = "8 word"

definition cp437 :: "byte \<Rightarrow> char" where
  "cp437 b = char_of (unat b)"

definition decode_cp437 :: "byte list \<Rightarrow> string" where
  "decode_cp437 bs = map cp437 bs"

definition in_ranges :: "nat \<Rightarrow> (nat \<times> nat) list \<Rightarrow> bool" where
  "in_ranges n rs = list_ex (\<lambda>(lo, hi). lo \<le> n \<and> n \<le> hi) rs"

text \<open>
  \<open>str.isalpha\<close>, \<open>str.isupper\<close>, \<open>str.islower\<close> and \<open>str.isspace\<close> on one character,
  tabulated over the cp437 repertoire by the code of the byte (65..90 and 97..122 are the
  ASCII letters; 128..167 and 224..252 hold the accented and Greek letters of the code page;
  255 is the no-break space).
\<close>

definition isalpha :: "char \<Rightarrow> bool" where
  "isalpha c = in_ranges (of_char c)
     [(65, 90), (97, 122), (128, 154), (159, 167), (224, 235), (237, 238), (252, 252)]"

definition isupper :: "char \<Rightarrow> bool" where
  "isupper c = in_ranges (of_char c)
     [(65, 90), (128, 128), (142, 144), (146, 146), (153, 154), (165, 165), (226, 226),
      (228, 228), (232, 234)]"

definition islower :: "char \<Rightarrow> bool" where
  "islower c = in_ranges (of_char c)
     [(97, 122), (129, 141), (145, 145), (147, 152), (159, 164), (166, 167), (224, 225),
      (227, 227), (229, 231), (235, 235), (237, 238), (252, 252)]"

definition isspace :: "char \<Rightarrow> bool" where
  "isspace c = in_ranges (of_char c) [(9, 13), (28, 32), (255, 255)]"

text \<open>\<open>s.strip()\<close>: whitespace is removed at both ends.\<close>

definition strip :: "string \<Rightarrow> string" where
  "strip s = rev (dropWhile isspace (rev (dropWhile isspace s)))"

text \<open>\<open>s.endswith(suf)\<close>.\<close>

definition endswith :: "string \<Rightarrow> string \<Rightarrow> bool" where
  "endswith s suf = (length suf \<le> length s \<and> drop (length s - length suf) s = suf)"

section \<open>Token segmenter\<close>

subsection \<open>\<open>tokenize_mixed\<close> (scot94\_extract.py)\<close>

text \<open>The state of the first loop is the pair of \<open>tokens\<close> and \<open>cur\<close>.\<close>

type_synonym tok_state = "string list \<times> string"

fun flush :: "tok_state \<Rightarrow> tok_state" where
  "flush (tokens, cur) = (if cur \<noteq> [] then (tokens @ [cur], []) else (tokens, cur))"

fun tokenize_step :: "tok_state \<Rightarrow> char \<Rightarrow> tok_state" where
  "tokenize_step (tokens, cur) ch =
     (if ch = CHR '' '' then flush (tokens, cur)
      else if \<not> (isalpha ch \<or> ch = CHR 0x27 \<or> ch = CHR ''-'') then flush (tokens, cur)
      else if cur \<noteq> [] \<and> isupper ch \<and> islower (last cur)
        then (fst (flush (tokens, cur)), [ch])
      else (tokens, cur @ [ch]))"

text \<open>The boundary pass: the \<open>for\<close> loop over the characters and the final \<open>flush()\<close>.\<close>

definition boundary_tokens :: "string \<Rightarrow> string list" where
  "boundary_tokens s = fst (flush (foldl tokenize_step ([], []) s))"

text \<open>
  The two merge loops differ only in the literal (\<open>"Mc"\<close>, then \<open>"Mac"\<close>). The index
  \<open>i\<close> of the \<open>while\<close> loop is the start of the list still to be read: \<open>i + 1 < len(tokens)\<close>
  holds when a second element is there.
\<close>

fun merge_prefix :: "string \<Rightarrow> string list \<Rightarrow> string list" where
  "merge_prefix p (t # u # rest) =
     (if t = p then (p @ u) # merge_prefix p rest else t # merge_prefix p (u # rest))"
| "merge_prefix p ts = ts"

definition tokenize_mixed :: "string \<Rightarrow> string list" where
  "tokenize_mixed s = merge_prefix ''Mac'' (merge_prefix ''Mc'' (boundary_tokens s))"

subsection \<open>\<open>split_concatenated_names\<close> (extract\_all\_names.py)\<close>

text \<open>The loop state is \<open>parts\<close>, \<open>cur\<close> and \<open>prev = blob[i - 1]\<close>.\<close>

type_synonym split_state = "string list \<times> string \<times> char"

fun split_step :: "split_state \<Rightarrow> char \<Rightarrow> split_state" where
  "split_step (parts, cur, prev) ch =
     (if isupper ch \<and> islower prev then
        (if endswith cur ''Mac'' \<or> endswith cur ''Mc'' then (parts, cur @ [ch], ch)
         else (parts @ [cur], [ch], ch))
      else (parts, cur @ [ch], ch))"

text \<open>The state after the loop has read a non-empty blob (\<open>cur = blob[0]\<close> at the start).\<close>

definition split_loop :: "string \<Rightarrow> split_state" where
  "split_loop blob = foldl split_step ([], [hd blob], hd blob) (tl blob)"

definition split_parts :: "string \<Rightarrow> string list" where
  "split_parts blob =
     (if blob = [] then []
      else (case split_loop blob of (parts, cur, prev) \<Rightarrow> parts @ [cur]))"

text \<open>\<open>parts[i + 1][:1].isupper()\<close>: the first character, if any, is an uppercase letter.\<close>

definition first_isupper :: "string \<Rightarrow> bool" where
  "first_isupper u = (case take 1 u of [c] \<Rightarrow> isupper c | _ \<Rightarrow> False)"

fun merge_mc :: "string list \<Rightarrow> string list" where
  "merge_mc (t # u # rest) =
     (if t = ''Mc'' \<and> first_isupper u then (''Mc'' @ u) # merge_mc rest
      else t # merge_mc (u # rest))"
| "merge_mc ts = ts"

definition split_concatenated_names :: "string \<Rightarrow> string list" where
  "split_concatenated_names blob = merge_mc (split_parts blob)"

section \<open>Slot table scanner (scot94\_extract.py)\<close>

definition ALLOWED_CHARS :: "char set" where
  "ALLOWED_CHARS =
     set (''ABCDEFGHIJKLMNOPQRSTUVWXYZabcdefghijklmnopqrstuvwxyz '' @ [CHR 0x27] @ ''-.'')"

text \<open>
  \<open>read_slot16(data, off)\<close>. Offsets are never negative in the program (the scan starts
  at 0 and only moves forward), so they are natural numbers and \<open>data[off : off + 16]\<close> is
  \<open>take 16 (drop off data)\<close>. The \<open>try\<close> around the decoding never fires: cp437 decodes
  every byte.
\<close>

definition read_slot16 :: "byte list \<Rightarrow> nat \<Rightarrow> string option" where
  "read_slot16 data off =
     (if off + 16 > length data then None
      else
        (let blk = take 16 (drop off data);
             L = unat (blk ! 0)
         in if \<not> (1 \<le> L \<and> L \<le> 15) then None
            else
              (let raw = take L (drop 1 blk);
                   s = strip (decode_cp437 raw)
               in if s = [] \<or> \<not> list_ex isalpha s then None
                  else if list_ex (\<lambda>ch. ch \<notin> ALLOWED_CHARS) s then None
                  else Some s)))"

text \<open>The inner \<open>while True\<close> loop of \<open>find_slot16_tables\<close>, on its state \<open>slots\<close>, \<open>off\<close>.\<close>

function slot_loop :: "byte list \<Rightarrow> (nat \<times> string) list \<Rightarrow> nat \<Rightarrow> (nat \<times> string) list \<times> nat" where
  "slot_loop data slots off =
     (case read_slot16 data off of
        None \<Rightarrow> (slots, off)
      | Some s \<Rightarrow> slot_loop data (slots @ [(off, s)]) (off + 16))"
  by pat_completeness auto
termination
proof (relation "measure (\<lambda>(data, slots, off). length data - off)")
  show "wf (measure (\<lambda>(data, slots, off). length data - off))"
    by simp
next
  fix data :: "byte list" and slots :: "(nat \<times> string) list" and off :: nat and s :: string
  assume "read_slot16 data off = Some s"
  then have "off + 16 \<le> length data"
    by (simp add: read_slot16_def split: if_splits)
  then show "((data, slots @ [(off, s)], off + 16), (data, slots, off))
      \<in> measure (\<lambda>(data, slots, off). length data - off)"
    by simp
qed

declare slot_loop.simps [simp del]

text \<open>
  One pass of the outer \<open>while\<close> loop, on its state \<open>tables\<close>, \<open>i\<close>: a run of at least 8
  slots is kept and the cursor jumps behind it, a shorter one is dropped and the cursor
  moves by one byte.
\<close>

type_synonym slot_table = "(nat \<times> string) list"

definition find_body :: "byte list \<Rightarrow> slot_table list \<times> nat \<Rightarrow> slot_table list \<times> nat" where
  "find_body data st =
     (case st of (tables, i) \<Rightarrow>
        (case slot_loop data [] i of (slots, off) \<Rightarrow>
           if length slots \<ge> 8 then (tables @ [slots], off) else (tables, i + 1)))"

lemma slot_loop_off:
  "slot_loop data slots off = (slots', off') \<Longrightarrow>
     length slots \<le> length slots' \<and> off' = off + 16 * (length slots' - length slots)"
proof (induction data slots off rule: slot_loop.induct)
  case (1 data slots off)
  show ?case
  proof (cases "read_slot16 data off")
    case None
    with "1.prems" show ?thesis by (simp add: slot_loop.simps [of data slots off])
  next
    case (Some s)
    with "1.prems" have "slot_loop data (slots @ [(off, s)]) (off + 16) = (slots', off')"
      by (simp add: slot_loop.simps [of data slots off])
    from "1.IH" [OF Some this] show ?thesis by auto
  qed
qed

lemma find_body_cursor: "find_body data (tables, i) = (tables', i') \<Longrightarrow> i < i'"
  by (auto simp: find_body_def split: prod.splits if_splits dest!: slot_loop_off)

text \<open>\<open>while i < len(data) - 16\<close>: the difference may be negative, hence the sum on the left.\<close>

function find_loop :: "byte list \<Rightarrow> slot_table list \<times> nat \<Rightarrow> slot_table list" where
  "find_loop data (tables, i) =
     (if i + 16 < length data then find_loop data (find_body data (tables, i)) else tables)"
  by pat_completeness auto
termination
proof (relation "measure (\<lambda>(data, tables, i). length data - i)")
  show "wf (measure (\<lambda>(data, tables, i). length data - i))"
    by simp
next
  fix data :: "byte list" and tables :: "slot_table list" and i :: nat
  assume a: "i + 16 < length data"
  obtain tables' i' where b: "find_body data (tables, i) = (tables', i')"
    by (cases "find_body data (tables, i)")
  from find_body_cursor [OF b] a
  show "((data, find_body data (tables, i)), (data, tables, i))
      \<in> measure (\<lambda>(data, tables, i). length data - i)"
    by (simp add: b)
qed

declare find_loop.simps [simp del]

definition find_slot16_tables :: "byte list \<Rightarrow> slot_table list" where
  "find_slot16_tables data = find_loop data ([], 0)"

section \<open>Unaligned Pascal scanner (scot94\_extract.py)\<close>

definition is_printable_name_bytes :: "byte list \<Rightarrow> bool" where
  "is_printable_name_bytes b =
     list_all (\<lambda>c. (65 \<le> c \<and> c \<le> 90) \<or> (97 \<le> c \<and> c \<le> 122) \<or> c \<in> {32, 39, 45, 46}) b"

text \<open>One pass of the \<open>while\<close> loop of \<open>extract_pascal_strings\<close>, on its state \<open>out\<close>, \<open>i\<close>.\<close>

definition pascal_body :: "byte list \<Rightarrow> int \<Rightarrow> int \<Rightarrow> (nat \<times> string) list \<times> nat \<Rightarrow> (nat \<times> string) list \<times> nat" where
  "pascal_body data min_len max_len st =
     (case st of (out, i) \<Rightarrow>
        (let L = unat (data ! i) in
         if min_len \<le> int L \<and> int L \<le> max_len \<and> i + 1 + L \<le> length data then
           (let sbytes = take L (drop (i + 1) data) in
            if is_printable_name_bytes sbytes then
              (let s = strip (decode_cp437 sbytes) in
               (if list_ex isalpha s then out @ [(i, s)] else out, i + 1 + L))
            else (out, i + 1))
         else (out, i + 1)))"

lemma pascal_body_cursor: "pascal_body data min_len max_len (out, i) = (out', i') \<Longrightarrow> i < i'"
  by (auto simp: pascal_body_def Let_def split: if_splits)

text \<open>\<open>while i < len(data) - 2\<close>; inside the loop \<open>data[i]\<close> is in range.\<close>

function pascal_loop :: "byte list \<Rightarrow> int \<Rightarrow> int \<Rightarrow> (nat \<times> string) list \<times> nat \<Rightarrow> (nat \<times> string) list" where
  "pascal_loop data min_len max_len (out, i) =
     (if i + 2 < length data
      then pascal_loop data min_len max_len (pascal_body data min_len max_len (out, i))
      else out)"
  by pat_completeness auto
termination
proof (relation "measure (\<lambda>(data, min_len, max_len, out, i). length data - i)")
  show "wf (measure (\<lambda>(data, min_len, max_len, out, i). length data - i))"
    by simp
next
  fix data :: "byte list" and min_len max_len :: int and out :: "(nat \<times> string) list" and i :: nat
  assume a: "i + 2 < length data"
  obtain out' i' where b: "pascal_body data min_len max_len (out, i) = (out', i')"
    by (cases "pascal_body data min_len max_len (out, i)")
  from pascal_body_cursor [OF b] a
  show "((data, min_len, max_len, pascal_body data min_len max_len (out, i)),
         (data, min_len, max_len, out, i))
      \<in> measure (\<lambda>(data, min_len, max_len, out, i). length data - i)"
    by (simp add: b)
qed

declare pascal_loop.simps [simp del]

definition extract_pascal_strings :: "byte list \<Rightarrow> int \<Rightarrow> int \<Rightarrow> (nat \<times> string) list" where
  "extract_pascal_strings data min_len max_len = pascal_loop data min_len max_len ([], 0)"

text \<open>
  The states \<open>out\<close>, \<open>i\<close> that the loop of \<open>extract_pascal_strings\<close> goes through: it starts
  with no token at cursor 0 and makes a pass as long as \<open>i < len(data) - 2\<close>.
\<close>

inductive pascal_reach :: "byte list \<Rightarrow> int \<Rightarrow> int \<Rightarrow> (nat \<times> string) list \<times> nat \<Rightarrow> bool"
  for data :: "byte list" and min_len max_len :: int where
  start: "pascal_reach data min_len max_len ([], 0)"
| pass: "pascal_reach data min_len max_len st \<Longrightarrow> snd st + 2 < length data \<Longrightarrow>
     pascal_reach data min_len max_len (pascal_body data min_len max_len st)"


section \<open>Block mapper (\<open>main\<close> of scot94\_extract.py)\<close>

text \<open>
  \<open>xs[a:b]\<close> for Python integers: a negative bound counts from the end, and both bounds are
  clamped to the list.
\<close>

definition py_slice :: "'a list \<Rightarrow> int \<Rightarrow> int \<Rightarrow> 'a list" where
  "py_slice xs a b =
     (let n = int (length xs);
          lo = (if a < 0 then max 0 (n + a) else min a n);
          hi = (if b < 0 then max 0 (n + b) else min b n)
      in drop (nat lo) (take (nat hi) xs))"

text \<open>
  The closure \<open>squadA\<close> reads \<open>tokens\<close>, \<open>start_team_index = 7\<close>, \<open>chunkA = 21\<close> and
  \<open>offsetA = -2\<close> from \<open>main\<close>; they are arguments here. \<open>None\<close> is Python's \<open>None\<close>.
\<close>

definition squadA :: "string list \<Rightarrow> int \<Rightarrow> int \<Rightarrow> int \<Rightarrow> int \<Rightarrow> string list option" where
  "squadA tokens start_team_index chunkA offsetA team_index =
     (let t = team_index - start_team_index;
          start = offsetA + t * chunkA;
          end' = start + chunkA
      in if start < 0 \<or> end' > int (length tokens) then None
         else Some (py_slice tokens start end'))"

text \<open>\<open>NAME_TOKEN_RE.fullmatch(t)\<close> for the pattern \<open>^[A-Za-z][A-Za-z'\-]{1,23}$\<close>.\<close>

definition ascii_letter :: "char \<Rightarrow> bool" where
  "ascii_letter c = in_ranges (of_char c) [(65, 90), (97, 122)]"

definition NAME_TOKEN_RE :: "string \<Rightarrow> bool" where
  "NAME_TOKEN_RE t =
     (case t of
        [] \<Rightarrow> False
      | c # cs \<Rightarrow> ascii_letter c \<and> 1 \<le> length cs \<and> length cs \<le> 23
          \<and> list_all (\<lambda>d. ascii_letter d \<or> d = CHR 0x27 \<or> d = CHR ''-'') cs)"

text \<open>
  \<open>range(start, stop, step)\<close> for a start that is not negative and a positive step.
  Python raises \<open>ValueError\<close> for step 0; the callers test for it before they build the
  range.
\<close>

function py_range :: "nat \<Rightarrow> int \<Rightarrow> nat \<Rightarrow> nat list" where
  "py_range start stop step =
     (if step = 0 \<or> stop \<le> int start then []
      else start # py_range (start + step) stop step)"
  by pat_completeness auto
termination
  by (relation "measure (\<lambda>(start, stop, step). nat (stop - int start))") auto

declare py_range.simps [simp del]

datatype py_error = IndexError | ValueError | ZeroDivisionError

text \<open>
  The loop that builds \<open>blocksB\<close>, with \<open>offsetB = 10\<close> and \<open>chunkB = 16\<close> as arguments. Its
  state is \<open>blocksB\<close>, \<open>block_id\<close> and whether \<open>break\<close> has been taken.
\<close>

type_synonym block = "nat \<times> nat \<times> string list"

fun blocksB_step :: "string list \<Rightarrow> nat \<Rightarrow> block list \<times> nat \<times> bool \<Rightarrow> nat \<Rightarrow> block list \<times> nat \<times> bool" where
  "blocksB_step tokens chunkB (blocksB, block_id, stopped) bstart =
     (if stopped then (blocksB, block_id, stopped)
      else
        (let bend = bstart + chunkB in
         if bend > length tokens then (blocksB, block_id, True)
         else
           (let blk = py_slice tokens (int bstart) (int bend);
                ok = (length (filter NAME_TOKEN_RE blk) \<ge> 12)
            in if \<not> ok then (blocksB, block_id, False)
               else (blocksB @ [(block_id, bstart, blk)], block_id + 1, False))))"

definition build_blocksB :: "string list \<Rightarrow> nat \<Rightarrow> nat \<Rightarrow> py_error + block list" where
  "build_blocksB tokens offsetB chunkB =
     (if chunkB = 0 then Inl ValueError
      else Inr (fst (foldl (blocksB_step tokens chunkB) ([], 0, False)
                       (py_range offsetB (int (length tokens)) chunkB))))"

section \<open>Numeric table solver (scot94\_extract\_with\_attrs\_and\_solver.py)\<close>

text \<open>\<open>xs[i]\<close> for a Python integer \<open>i\<close>: \<open>-len(xs) \<le> i < 0\<close> reads from the end.\<close>

definition py_index :: "'a list \<Rightarrow> int \<Rightarrow> py_error + 'a" where
  "py_index xs i =
     (if 0 \<le> i \<and> i < int (length xs) then Inr (xs ! nat i)
      else if - int (length xs) \<le> i \<and> i < 0 then Inr (xs ! nat (int (length xs) + i))
      else Inl IndexError)"

text \<open>
  \<open>truth\<close> is a dictionary: its items, in insertion order, are a list of pairs with
  distinct keys. The loop of \<open>_mean_abs_error\<close> adds whole numbers to \<open>err\<close>; Python holds
  the sum and the quotient in a binary64 float, the model holds the exact values. The two
  agree on whether the error is zero, which is all that the properties below use. The
  numbers of the program (16-bit values, scales up to 100, capacities below 100000) are
  far inside the range in which a float holds a whole number exactly.
\<close>

fun abs_error_sum :: "int list \<Rightarrow> (int \<times> int) list \<Rightarrow> int \<Rightarrow> py_error + int" where
  "abs_error_sum pred [] err = Inr err"
| "abs_error_sum pred ((idx, val) # items) err =
     (case py_index pred idx of
        Inl e \<Rightarrow> Inl e
      | Inr p \<Rightarrow> abs_error_sum pred items (err + \<bar>p - val\<bar>))"

text \<open>\<open>a / b\<close> on numbers: Python raises \<open>ZeroDivisionError\<close> for \<open>b = 0\<close>.\<close>

definition py_truediv :: "rat \<Rightarrow> rat \<Rightarrow> py_error + rat" where
  "py_truediv a b = (if b = 0 then Inl ZeroDivisionError else Inr (a / b))"

definition mean_abs_error :: "int list \<Rightarrow> (int \<times> int) list \<Rightarrow> py_error + rat" where
  "mean_abs_error pred truth =
     (case abs_error_sum pred truth 0 of
        Inl e \<Rightarrow> Inl e
      | Inr err \<Rightarrow> py_truediv (of_int err) (of_int (max 1 (int (length truth)))))"

text \<open>
  \<open>struct.unpack_from("<" + "H" * n, data, off)\<close>: \<open>n\<close> little-endian 16-bit values, or
  \<open>struct.error\<close> (here \<open>None\<close>) when the buffer is too short.
\<close>

definition unpack_u16 :: "nat \<Rightarrow> byte list \<Rightarrow> nat \<Rightarrow> int list option" where
  "unpack_u16 n data off =
     (if off + 2 * n > length data then None
      else Some (map (\<lambda>j. int (unat (data ! (off + 2 * j)))
                          + 256 * int (unat (data ! (off + 2 * j + 1)))) [0..<n]))"

text \<open>\<open>max(xs)\<close> and \<open>min(xs)\<close>; both raise \<open>ValueError\<close> on an empty sequence.\<close>

definition py_max :: "int list \<Rightarrow> py_error + int" where
  "py_max xs = (case xs of [] \<Rightarrow> Inl ValueError | x # rest \<Rightarrow> Inr (fold max rest x))"

definition py_min :: "int list \<Rightarrow> py_error + int" where
  "py_min xs = (case xs of [] \<Rightarrow> Inl ValueError | x # rest \<Rightarrow> Inr (fold min rest x))"

text \<open>
  A recorded candidate. The field \<open>kind\<close> of the source is the text \<open>u16_x\<close> followed by
  the scale; it carries nothing beyond \<open>scale\<close> and is left out.
\<close>

record candidate =
  offset :: nat
  scale :: int
  mae :: rat
  min_pred :: int
  max_pred :: int

text \<open>The loop \<open>for k in scales\<close> for one offset.\<close>

fun scale_loop :: "int list \<Rightarrow> (int \<times> int) list \<Rightarrow> nat \<Rightarrow> candidate list \<Rightarrow> int list \<Rightarrow> py_error + candidate list" where
  "scale_loop vals truth off out [] = Inr out"
| "scale_loop vals truth off out (k # ks) =
     (let pred = map (\<lambda>v. v * k) vals in
      case mean_abs_error pred truth of
        Inl e \<Rightarrow> Inl e
      | Inr m \<Rightarrow>
          (case py_min pred of
             Inl e \<Rightarrow> Inl e
           | Inr lo \<Rightarrow>
               (case py_max pred of
                  Inl e \<Rightarrow> Inl e
                | Inr hi \<Rightarrow>
                    scale_loop vals truth off
                      (out @ [\<lparr>offset = off, scale = k, mae = m, min_pred = lo, max_pred = hi\<rparr>])
                      ks)))"

text \<open>The loop \<open>for off in range(search_start, end, step)\<close>.\<close>

fun offset_loop :: "byte list \<Rightarrow> nat \<Rightarrow> (int \<times> int) list \<Rightarrow> int list \<Rightarrow> candidate list \<Rightarrow> nat list \<Rightarrow> py_error + candidate list" where
  "offset_loop data n truth scales out [] = Inr out"
| "offset_loop data n truth scales out (off # offs) =
     (case unpack_u16 n data off of
        None \<Rightarrow> offset_loop data n truth scales out offs
      | Some vals \<Rightarrow>
          (case py_max vals of
             Inl e \<Rightarrow> Inl e
           | Inr mx \<Rightarrow>
               if mx = 0 then offset_loop data n truth scales out offs
               else
                 (case scale_loop vals truth off out scales of
                    Inl e \<Rightarrow> Inl e
                  | Inr out' \<Rightarrow> offset_loop data n truth scales out' offs)))"

text \<open>
  \<open>solve_u16_scaled_tables\<close>. The callers pass \<open>search_start = 0\<close>, no \<open>search_end\<close> and
  \<open>step = 1\<close>; start and step are natural numbers here. \<open>len(data) - byte_len\<close> may be
  negative. Python's \<open>list.sort\<close> is stable, as \<open>sort_key\<close> is.
\<close>

definition solve_u16_scaled_tables :: "byte list \<Rightarrow> nat \<Rightarrow> (int \<times> int) list \<Rightarrow> int list \<Rightarrow> nat \<Rightarrow> nat option \<Rightarrow> nat \<Rightarrow> py_error + candidate list" where
  "solve_u16_scaled_tables data n truth scales search_start search_end step =
     (let search_end' = (case search_end of None \<Rightarrow> length data | Some e \<Rightarrow> e);
          byte_len = 2 * n;
          end' = min (int search_end') (int (length data) - int byte_len)
      in if step = 0 then Inl ValueError
         else
           (case offset_loop data n truth scales [] (py_range search_start end' step) of
              Inl e \<Rightarrow> Inl e
            | Inr out \<Rightarrow> Inr (sort_key mae out)))"

section \<open>Notions used to state and prove the properties\<close>

text \<open>The characters that \<open>tokenize_mixed\<close> keeps, and a token made of them.\<close>

definition name_char :: "char \<Rightarrow> bool" where
  "name_char c = (isalpha c \<or> c = CHR 0x27 \<or> c = CHR ''-'')"

definition token_ok :: "string \<Rightarrow> bool" where
  "token_ok t = (t \<noteq> [] \<and> list_all name_char t)"

text \<open>A block of the sequential mode that is a full window inside the token stream.\<close>

definition block_ok :: "string list \<Rightarrow> nat \<Rightarrow> block \<Rightarrow> bool" where
  "block_ok tokens chunkB b = (case b of (block_id, bstart, blk) \<Rightarrow>
     length blk = chunkB \<and> bstart + chunkB \<le> length tokens
     \<and> blk = take chunkB (drop bstart tokens))"

text \<open>
  The sum of the absolute errors over the anchors and its mean, for anchor indices that
  are in range, and the candidates that the solver records for one offset.
\<close>

definition abs_err :: "int list \<Rightarrow> (int \<times> int) list \<Rightarrow> int" where
  "abs_err pred truth = (\<Sum>(idx, val) \<leftarrow> truth. \<bar>pred ! nat idx - val\<bar>)"

definition mae_val :: "int list \<Rightarrow> (int \<times> int) list \<Rightarrow> rat" where
  "mae_val pred truth = of_int (abs_err pred truth) / of_int (max 1 (int (length truth)))"

definition cand :: "(int \<times> int) list \<Rightarrow> nat \<Rightarrow> int list \<Rightarrow> int \<Rightarrow> candidate" where
  "cand truth off vals k = \<lparr>offset = off, scale = k, mae = mae_val (map (\<lambda>v. v * k) vals) truth,
     min_pred = fold min (tl (map (\<lambda>v. v * k) vals)) (hd (map (\<lambda>v. v * k) vals)),
     max_pred = fold max (tl (map (\<lambda>v. v * k) vals)) (hd (map (\<lambda>v. v * k) vals))\<rparr>"

definition cands :: "byte list \<Rightarrow> nat \<Rightarrow> (int \<times> int) list \<Rightarrow> int list \<Rightarrow> nat \<Rightarrow> candidate list" where
  "cands data n truth scales off =
     (case unpack_u16 n data off of
        None \<Rightarrow> []
      | Some vals \<Rightarrow> if py_max vals = Inr 0 then [] else map (cand truth off vals) scales)"

section \<open>Properties of the token segmenter\<close>

text \<open>
  Claim C1. Both segmenters turn \<open>"AndersonDiamondMcNaughtonMacPherson"\<close> into exactly the
  four tokens Anderson, Diamond, McNaughton, MacPherson, in that order.
\<close>

theorem C1_segment_constructed_input:
  "tokenize_mixed ''AndersonDiamondMcNaughtonMacPherson''
     = [''Anderson'', ''Diamond'', ''McNaughton'', ''MacPherson'']
   \<and> split_concatenated_names ''AndersonDiamondMcNaughtonMacPherson''
     = [''Anderson'', ''Diamond'', ''McNaughton'', ''MacPherson'']"
  by code_simp

subsection \<open>Character classes\<close>

lemma islower_isalpha: "islower c \<Longrightarrow> isalpha c"
  unfolding islower_def isalpha_def in_ranges_def by simp arith

lemma isupper_isalpha: "isupper c \<Longrightarrow> isalpha c"
  unfolding isupper_def isalpha_def in_ranges_def by simp arith

lemma isupper_not_space: "isupper c \<Longrightarrow> c \<noteq> CHR '' ''"
  unfolding isupper_def in_ranges_def by auto

subsection \<open>What a token is made of\<close>

lemma token_ok_append: "token_ok a \<Longrightarrow> token_ok b \<Longrightarrow> token_ok (a @ b)"
  by (simp add: token_ok_def)

lemma tokenize_step_inv:
  assumes "list_all token_ok tokens" "list_all name_char cur"
    and "tokenize_step (tokens, cur) ch = (tokens', cur')"
  shows "list_all token_ok tokens' \<and> list_all name_char cur'"
  using assms by (auto simp: token_ok_def name_char_def split: if_splits)

lemma tokenize_loop_inv:
  "list_all token_ok (fst st) \<Longrightarrow> list_all name_char (snd st) \<Longrightarrow>
   list_all token_ok (fst (foldl tokenize_step st s))
     \<and> list_all name_char (snd (foldl tokenize_step st s))"
proof (induction s arbitrary: st)
  case Nil
  then show ?case by simp
next
  case (Cons ch s)
  obtain tokens cur where st: "st = (tokens, cur)" by (cases st)
  obtain tokens' cur' where st': "tokenize_step (tokens, cur) ch = (tokens', cur')"
    by (cases "tokenize_step (tokens, cur) ch")
  from Cons.prems st have "list_all token_ok tokens" "list_all name_char cur" by simp_all
  from tokenize_step_inv [OF this st']
  have "list_all token_ok (fst (tokens', cur'))" "list_all name_char (snd (tokens', cur'))"
    by simp_all
  from Cons.IH [OF this] show ?case by (simp add: st st' del: tokenize_step.simps)
qed

lemma boundary_tokens_ok: "list_all token_ok (boundary_tokens s)"
proof -
  obtain tokens cur where f: "foldl tokenize_step ([], []) s = (tokens, cur)"
    by (cases "foldl tokenize_step ([], []) s")
  have "list_all token_ok tokens \<and> list_all name_char cur"
    using tokenize_loop_inv [of "([], [])" s] f by simp
  then show ?thesis by (simp add: boundary_tokens_def f token_ok_def)
qed

lemma merge_prefix_ok: "list_all token_ok ts \<Longrightarrow> list_all token_ok (merge_prefix p ts)"
  by (induction p ts rule: merge_prefix.induct) (auto simp: token_ok_append)

lemma NAME_TOKEN_RE_shape:
  "NAME_TOKEN_RE t \<Longrightarrow> ascii_letter (hd t) \<and> 2 \<le> length t \<and> length t \<le> 24"
  by (cases t) (simp_all add: NAME_TOKEN_RE_def)

text \<open>
  Claim C5, as the code has it. Every token of \<open>tokenize_mixed\<close> is non-empty and consists
  of letters (\<open>isalpha\<close>), apostrophes and hyphens only. The segmenter bounds neither the
  length of a token nor its first character: a token may be a single character, longer
  than 24, or start with an apostrophe or a hyphen. A token begins with a letter and has
  a length from 2 to 24 when it matches \<open>NAME_TOKEN_RE\<close>, the test that the block mapper
  applies to the tokens later.
\<close>

theorem C5_tokens_nonempty_name_chars:
  "\<forall>t \<in> set (tokenize_mixed s).
     t \<noteq> [] \<and> (\<forall>c \<in> set t. isalpha c \<or> c = CHR 0x27 \<or> c = CHR ''-'')
     \<and> (NAME_TOKEN_RE t \<longrightarrow> ascii_letter (hd t) \<and> 2 \<le> length t \<and> length t \<le> 24)"
proof -
  have "list_all token_ok (tokenize_mixed s)"
    by (simp add: tokenize_mixed_def merge_prefix_ok boundary_tokens_ok)
  then show ?thesis
    using NAME_TOKEN_RE_shape by (auto simp: list_all_iff token_ok_def name_char_def)
qed

theorem C5_tokens_nonempty_name_chars_witness:
  "tokenize_mixed ''ab-c 7d'' = [''ab-c'', ''d'']
   \<and> ''ab-c'' \<noteq> []
   \<and> list_all (\<lambda>c. isalpha c \<or> c = CHR 0x27 \<or> c = CHR ''-'') ''ab-c''
   \<and> NAME_TOKEN_RE ''ab-c'' \<and> ascii_letter (hd ''ab-c'')
   \<and> 2 \<le> length ''ab-c'' \<and> length ''ab-c'' \<le> 24"
proof -
  have e: "tokenize_mixed ''ab-c 7d'' = [''ab-c'', ''d'']" "NAME_TOKEN_RE ''ab-c''"
    by code_simp+
  from C5_tokens_nonempty_name_chars [of "''ab-c 7d''"] show ?thesis
    by (simp add: e)
qed

text \<open>
  The claim as stated fails: \<open>"-x A"\<close> gives a token that starts with a hyphen and a token
  of length 1.
\<close>

theorem C5_short_token_counterexample:
  "tokenize_mixed ''-x A'' = [''-x'', ''A''] \<and> \<not> isalpha (hd ''-x'') \<and> length ''A'' < 2"
  by code_simp

subsection \<open>The boundary pass\<close>

lemma split_step_prev: "split_step st ch = (parts, cur, prev) \<Longrightarrow> prev = ch"
  by (cases st) (auto split: if_splits)

lemma split_loop_snoc:
  "pre \<noteq> [] \<Longrightarrow> split_loop (pre @ [ch]) = split_step (split_loop pre) ch"
  by (cases pre) (simp_all add: split_loop_def)

lemma split_loop_prev:
  "pre \<noteq> [] \<Longrightarrow> split_loop pre = (parts, cur, prev) \<Longrightarrow> prev = last pre"
proof (induction pre arbitrary: parts cur prev rule: rev_induct)
  case Nil
  then show ?case by simp
next
  case (snoc x xs)
  show ?case
  proof (cases "xs = []")
    case True
    with snoc.prems show ?thesis by (simp add: split_loop_def)
  next
    case False
    with snoc.prems have "split_step (split_loop xs) x = (parts, cur, prev)"
      by (simp add: split_loop_snoc)
    then show ?thesis by (simp add: split_step_prev)
  qed
qed

lemma split_boundary:
  assumes "pre \<noteq> []" "islower (last pre)" "isupper ch"
  shows "split_parts (pre @ [ch]) =
     (let ps = split_parts pre; cur = last ps in
      if endswith cur ''Mac'' \<or> endswith cur ''Mc'' then butlast ps @ [cur @ [ch]]
      else ps @ [[ch]])"
proof -
  obtain parts cur prev where l: "split_loop pre = (parts, cur, prev)"
    by (cases "split_loop pre")
  from split_loop_prev [OF assms(1) l] have p: "prev = last pre" .
  have ps: "split_parts pre = parts @ [cur]"
    using assms(1) by (simp add: split_parts_def l)
  have "split_loop (pre @ [ch]) =
      (if endswith cur ''Mac'' \<or> endswith cur ''Mc'' then (parts, cur @ [ch], ch)
       else (parts @ [cur], [ch], ch))"
    using assms p by (simp add: split_loop_snoc l)
  moreover have "split_parts (pre @ [ch]) =
      (case split_loop (pre @ [ch]) of (parts, cur, prev) \<Rightarrow> parts @ [cur])"
    by (simp add: split_parts_def)
  ultimately show ?thesis
    by (simp add: ps Let_def)
qed

lemma tokenize_step_name_char:
  assumes "isalpha ch"
  shows "snd (tokenize_step (tokens, cur) ch) \<noteq> []
     \<and> last (snd (tokenize_step (tokens, cur) ch)) = ch"
proof -
  have "ch \<noteq> CHR '' ''" using assms by (auto simp: isalpha_def in_ranges_def)
  with assms show ?thesis by simp
qed

lemma tokenize_boundary:
  assumes "pre \<noteq> []" "islower (last pre)" "isupper ch"
  shows "boundary_tokens (pre @ [ch]) = boundary_tokens pre @ [[ch]]"
proof -
  obtain xs c where pre: "pre = xs @ [c]" using assms(1) by (metis rev_exhaust)
  obtain tokens0 cur0 where s0: "foldl tokenize_step ([], []) xs = (tokens0, cur0)"
    by (cases "foldl tokenize_step ([], []) xs")
  obtain tokens cur where s1: "tokenize_step (tokens0, cur0) c = (tokens, cur)"
    by (cases "tokenize_step (tokens0, cur0) c")
  have lc: "islower c" using assms(2) pre by simp
  from tokenize_step_name_char [OF islower_isalpha [OF lc], of tokens0 cur0]
  have cur: "cur \<noteq> []" "last cur = c" by (simp_all add: s1 del: tokenize_step.simps)
  have st: "foldl tokenize_step ([], []) pre = (tokens, cur)"
    by (simp add: pre s0 s1 del: tokenize_step.simps)
  have "tokenize_step (tokens, cur) ch = (tokens @ [cur], [ch])"
    using cur lc assms(3) isupper_isalpha [OF assms(3)] isupper_not_space [OF assms(3)] by simp
  then show ?thesis
    using cur by (simp add: boundary_tokens_def st del: tokenize_step.simps)
qed

text \<open>
  Claim C6, as the code has it. Let the input read so far end in a lowercase letter and
  let the next character be uppercase. In \<open>split_concatenated_names\<close> the uppercase
  character starts a new token unless the token accumulated so far \<^emph>\<open>ends with\<close> \<open>"Mac"\<close>
  or \<open>"Mc"\<close> (it need not be exactly that prefix); then the character is added to the same
  token. In \<open>tokenize_mixed\<close> the boundary pass has no exception: the uppercase character
  always starts a new token, and \<open>"Mc"\<close> and \<open>"Mac"\<close> are joined to their successor only by
  the merge passes.
\<close>

theorem C6_boundary_rule:
  assumes "pre \<noteq> []" and "islower (last pre)" and "isupper ch"
  shows "split_parts (pre @ [ch]) =
           (let ps = split_parts pre; cur = last ps in
            if endswith cur ''Mac'' \<or> endswith cur ''Mc'' then butlast ps @ [cur @ [ch]]
            else ps @ [[ch]])
       \<and> boundary_tokens (pre @ [ch]) = boundary_tokens pre @ [[ch]]"
  using split_boundary [OF assms] tokenize_boundary [OF assms] by (rule conjI)

theorem C6_boundary_rule_witness:
  "islower (last ''DiMac'') \<and> isupper CHR ''P''
   \<and> split_parts (''DiMac'' @ [CHR ''P'']) = [''Di'', ''MacP'']
   \<and> boundary_tokens (''DiMac'' @ [CHR ''P'']) = [''Di'', ''Mac'', ''P'']"
proof -
  have h: "''DiMac'' \<noteq> []" "islower (last ''DiMac'')" "isupper CHR ''P''"
    by code_simp+
  have e: "split_parts ''DiMac'' = [''Di'', ''Mac'']" "boundary_tokens ''DiMac'' = [''Di'', ''Mac'']"
      "endswith ''Mac'' ''Mac''"
    by code_simp+
  from C6_boundary_rule [OF h] h(2,3) show ?thesis
    by (simp add: e)
qed

text \<open>
  The claim as stated fails in both segmenters. In \<open>tokenize_mixed\<close> the token \<open>"Mc"\<close> is
  closed at the uppercase \<open>N\<close>. In \<open>split_concatenated_names\<close> the token \<open>"AMc"\<close> is not
  exactly \<open>"Mc"\<close>, and the uppercase \<open>B\<close> is still added to it.
\<close>

theorem C6_exact_prefix_counterexample:
  "boundary_tokens ''Mc'' = [''Mc''] \<and> boundary_tokens ''McN'' = [''Mc'', ''N'']
   \<and> split_parts ''AMc'' = [''AMc''] \<and> split_parts ''AMcB'' = [''AMcB'']
   \<and> islower CHR ''c'' \<and> isupper CHR ''N'' \<and> isupper CHR ''B''"
  by code_simp

subsection \<open>The merge pass\<close>

lemma merge_prefix_first:
  "p \<notin> set pre \<Longrightarrow> merge_prefix p (pre @ p # rest) =
     pre @ (case rest of [] \<Rightarrow> [p] | u # rest' \<Rightarrow> (p @ u) # merge_prefix p rest')"
proof (induction pre)
  case Nil
  then show ?case by (cases rest) simp_all
next
  case (Cons t pre)
  then show ?case by (cases pre) auto
qed

lemma merge_mc_first:
  "''Mc'' \<notin> set pre \<Longrightarrow> merge_mc (pre @ ''Mc'' # rest) =
     pre @ (case rest of [] \<Rightarrow> [''Mc'']
            | u # rest' \<Rightarrow> if first_isupper u then (''Mc'' @ u) # merge_mc rest'
                            else ''Mc'' # merge_mc (u # rest'))"
proof (induction pre)
  case Nil
  then show ?case by (cases rest) simp_all
next
  case (Cons t pre)
  then show ?case by (cases pre) auto
qed

lemma merge_mc_mac:
  "''Mc'' \<notin> set pre \<Longrightarrow> merge_mc (pre @ ''Mac'' # rest) = pre @ ''Mac'' # merge_mc rest"
proof (induction pre)
  case Nil
  then show ?case by (cases rest) simp_all
next
  case (Cons t pre)
  then show ?case by (cases pre) auto
qed

text \<open>
  Claim C7, as the code has it. In a merge pass of \<open>tokenize_mixed\<close> (\<open>p\<close> is \<open>"Mc"\<close> in the
  first pass and \<open>"Mac"\<close> in the second) the first token equal to \<open>p\<close> is merged with the
  token after it if and only if there is such a token, whatever its first character; the
  pass then goes on behind the pair. In \<open>split_concatenated_names\<close> only \<open>"Mc"\<close> is merged,
  and only with a following token that starts with an uppercase letter; \<open>"Mac"\<close> is never
  merged with its successor by that pass. A fragment that is not merged stays a token of
  its own.
\<close>

theorem C7_merge_rule:
  assumes "p \<notin> set pre" and "''Mc'' \<notin> set pre'"
  shows "merge_prefix p (pre @ p # rest) =
           pre @ (case rest of [] \<Rightarrow> [p] | u # rest' \<Rightarrow> (p @ u) # merge_prefix p rest')
       \<and> merge_mc (pre' @ ''Mc'' # rest) =
           pre' @ (case rest of [] \<Rightarrow> [''Mc'']
                   | u # rest' \<Rightarrow> if first_isupper u then (''Mc'' @ u) # merge_mc rest'
                                   else ''Mc'' # merge_mc (u # rest'))
       \<and> merge_mc (pre' @ ''Mac'' # rest) = pre' @ ''Mac'' # merge_mc rest"
  using merge_prefix_first [OF assms(1)] merge_mc_first [OF assms(2)] merge_mc_mac [OF assms(2)]
  by simp

theorem C7_merge_rule_witness:
  "''Mc'' \<notin> set [''Di''] \<and> ''Mc'' \<notin> set [''Ab'']
   \<and> merge_prefix ''Mc'' ([''Di''] @ ''Mc'' # [''kay'', ''Mc'']) = [''Di'', ''Mckay'', ''Mc'']
   \<and> merge_mc ([''Ab''] @ ''Mc'' # [''kay'', ''Mc'']) = [''Ab'', ''Mc'', ''kay'', ''Mc'']
   \<and> merge_mc ([''Ab''] @ ''Mac'' # [''kay'', ''Mc'']) = [''Ab'', ''Mac'', ''kay'', ''Mc'']"
proof -
  have h: "''Mc'' \<notin> set [''Di'']" "''Mc'' \<notin> set [''Ab'']" by simp_all
  have e: "\<not> first_isupper ''kay''" by code_simp
  from C7_merge_rule [OF h, of "[''kay'', ''Mc'']"] h show ?thesis
    by (simp add: e)
qed

text \<open>
  The claim as stated fails on the output of the boundary pass of \<open>tokenize_mixed\<close>: after
  a space the next token may start with a lowercase letter, and \<open>"Mc"\<close> is merged with it
  all the same.
\<close>

theorem C7_lowercase_merge_counterexample:
  "boundary_tokens ''Mc donald'' = [''Mc'', ''donald''] \<and> \<not> first_isupper ''donald''
   \<and> tokenize_mixed ''Mc donald'' = [''Mcdonald'']"
  by code_simp

section \<open>Properties of the slot table scanner\<close>

subsection \<open>One slot\<close>

lemma length_take_drop_While:
  "length (takeWhile P xs) + length (dropWhile P xs) = length xs"
proof -
  have "length (takeWhile P xs @ dropWhile P xs) = length xs"
    by (simp only: takeWhile_dropWhile_id)
  then show ?thesis by (simp only: length_append)
qed

lemma length_strip:
  assumes "strip t \<noteq> []"
  shows "length (strip t) + length (takeWhile isspace t) + length (takeWhile isspace (rev t)) = length t"
proof -
  let ?d = "dropWhile isspace t"
  have d: "?d \<noteq> []"
  proof
    assume e: "?d = []"
    have "strip t = []" unfolding strip_def e by simp
    with assms show False by simp
  qed
  then have "\<not> isspace (hd ?d)" by (rule hd_dropWhile)
  moreover from d have "hd ?d \<in> set (rev ?d)" by simp
  ultimately have tw1: "takeWhile isspace (rev ?d @ rev (takeWhile isspace t)) = takeWhile isspace (rev ?d)"
    by (rule takeWhile_append1 [rotated])
  have "rev (takeWhile isspace t @ ?d) = rev ?d @ rev (takeWhile isspace t)"
    by (rule rev_append)
  then have "rev t = rev ?d @ rev (takeWhile isspace t)"
    by (simp only: takeWhile_dropWhile_id)
  with tw1 have tw: "takeWhile isspace (rev t) = takeWhile isspace (rev ?d)"
    by (simp only:)
  have "length (strip t) = length (dropWhile isspace (rev ?d))"
    by (simp only: strip_def length_rev)
  moreover have "length (takeWhile isspace (rev ?d)) + length (dropWhile isspace (rev ?d)) = length ?d"
    by (simp only: length_take_drop_While length_rev)
  moreover have "length (takeWhile isspace t) + length ?d = length t"
    by (rule length_take_drop_While)
  ultimately show ?thesis
    by (simp add: tw)
qed

text \<open>
  Claim C9, as the code has it. When \<open>read_slot16\<close> returns a text, the length byte \<open>L\<close> of
  the slot is between 1 and 15, the \<open>L\<close> text bytes are all inside the slot, and the text
  returned has \<open>L\<close> characters less the whitespace at the start and at the end of the
  decoded text bytes: \<open>strip()\<close> removes whitespace on both sides.
\<close>

theorem C9_slot_length:
  assumes "read_slot16 data off = Some s"
  shows "1 \<le> unat (data ! off) \<and> unat (data ! off) \<le> 15
    \<and> length (take (unat (data ! off)) (drop (off + 1) data)) = unat (data ! off)
    \<and> length s
        + length (takeWhile isspace
            (decode_cp437 (take (unat (data ! off)) (drop (off + 1) data))))
        + length (takeWhile isspace
            (rev (decode_cp437 (take (unat (data ! off)) (drop (off + 1) data)))))
       = unat (data ! off)"
proof -
  let ?L = "unat (data ! off)"
  let ?raw = "take ?L (drop (off + 1) data)"
  from assms have len: "off + 16 \<le> length data"
    by (simp add: read_slot16_def split: if_splits)
  then have blk0: "take 16 (drop off data) ! 0 = data ! off" by simp
  have raw: "take ?L (drop (Suc 0) (take 16 (drop off data))) = take ?L (drop (Suc off) data)"
    if "?L \<le> 15"
    using that by (simp add: drop_take min_def)
  from assms len have L: "1 \<le> ?L" "?L \<le> 15"
    by (simp_all add: read_slot16_def blk0 Let_def split: if_splits)
  from assms len L have s: "s = strip (decode_cp437 ?raw)" "s \<noteq> []"
    by (simp_all add: read_slot16_def blk0 Let_def raw split: if_splits)
  have lr: "length ?raw = ?L" using len L by simp
  from length_strip [of "decode_cp437 ?raw"] s lr
  show ?thesis using L by (simp add: decode_cp437_def)
qed

theorem C9_slot_length_witness:
  "read_slot16 ([5, 32, 65, 98, 32, 32] @ replicate 10 0) 0 = Some ''Ab''
   \<and> unat (([5, 32, 65, 98, 32, 32] @ replicate 10 (0 :: byte)) ! 0) = 5
   \<and> length ''Ab''
        + length (takeWhile isspace (decode_cp437 [32, 65, 98, 32, 32]))
        + length (takeWhile isspace (rev (decode_cp437 [32, 65, 98, 32, 32])))
      = 5"
proof -
  let ?d = "[5, 32, 65, 98, 32, 32] @ replicate 10 (0 :: byte)"
  have h: "read_slot16 ?d 0 = Some ''Ab''" by code_simp
  have L: "unat (?d ! 0) = 5" by simp
  have t: "take 5 (drop (0 + 1) ?d) = [32, 65, 98, 32, 32]" by simp
  from C9_slot_length [OF h] h L show ?thesis
    by (simp only: L t)
qed

text \<open>
  The claim as stated fails: a slot with length byte 3 and the text bytes \<open>" Ab"\<close> decodes
  to \<open>"Ab"\<close>. None of the three text bytes is trailing padding (neither whitespace nor a
  zero byte ends them), yet the text has length 2, not 3.
\<close>

theorem C9_leading_space_counterexample:
  "read_slot16 ([3, 32, 65, 98] @ replicate 12 0) 0 = Some ''Ab''
   \<and> takeWhile (\<lambda>c. isspace c \<or> c = CHR 0x00) (rev (decode_cp437 [32, 65, 98])) = []
   \<and> length ''Ab'' \<noteq> 3"
  by code_simp

subsection \<open>A run of slots\<close>

lemma read_slot16_local:
  assumes "length r = 16"
  shows "read_slot16 (pre @ r @ post) (length pre) = read_slot16 r 0"
proof -
  have "take 16 (drop (length pre) (pre @ r @ post)) = r" "take 16 (drop 0 r) = r"
    using assms by simp_all
  then show ?thesis using assms by (simp add: read_slot16_def)
qed

lemma length_concat_slots:
  "\<forall>r \<in> set rs. length r = 16 \<and> read_slot16 r 0 \<noteq> None \<Longrightarrow> length (concat rs) = 16 * length rs"
  by (induction rs) simp_all

lemma slot_loop_run:
  assumes "\<forall>r \<in> set rs. length r = 16 \<and> read_slot16 r 0 \<noteq> None"
    and "length bad = 16" and "read_slot16 bad 0 = None"
  shows "slot_loop (pre @ concat rs @ bad) slots (length pre) =
     (slots @ map (\<lambda>k. (length pre + 16 * k, the (read_slot16 (rs ! k) 0))) [0..<length rs],
      length pre + 16 * length rs)"
  using assms(1)
proof (induction rs arbitrary: pre slots)
  case Nil
  have "read_slot16 (pre @ bad @ []) (length pre) = None"
    using read_slot16_local [OF assms(2), of pre "[]"] assms(3) by simp
  then show ?case by (simp add: slot_loop.simps [of _ slots "length pre"])
next
  case (Cons r rs)
  from Cons.prems obtain s where r: "length r = 16" "read_slot16 r 0 = Some s" by auto
  from Cons.prems have rs: "\<forall>r \<in> set rs. length r = 16 \<and> read_slot16 r 0 \<noteq> None" by simp
  have "read_slot16 (pre @ r @ (concat rs @ bad)) (length pre) = Some s"
    using read_slot16_local [OF r(1), of pre "concat rs @ bad"] r(2) by simp
  then have "slot_loop (pre @ concat (r # rs) @ bad) slots (length pre) =
      slot_loop ((pre @ r) @ concat rs @ bad) (slots @ [(length pre, s)]) (length (pre @ r))"
    using r(1) by (simp add: slot_loop.simps [of _ slots "length pre"])
  also have "\<dots> = ((slots @ [(length pre, s)])
        @ map (\<lambda>k. (length (pre @ r) + 16 * k, the (read_slot16 (rs ! k) 0))) [0..<length rs],
      length (pre @ r) + 16 * length rs)"
    by (rule Cons.IH [OF rs])
  also have "\<dots> = (slots @ map (\<lambda>k. (length pre + 16 * k, the (read_slot16 ((r # rs) ! k) 0))) [0..<length (r # rs)],
      length pre + 16 * length (r # rs))"
    using r by (simp add: upt_conv_Cons map_Suc_upt [symmetric] del: upt_Suc)
  finally show ?case .
qed

text \<open>
  Claim C2. A buffer made of 10 valid 16-byte slot records followed by one 16-byte record
  that does not decode yields exactly one table. The table holds the 10 records, at the
  offsets 0, 16, ..., 144, each with its decoded text; the invalid record is not in it.
\<close>

theorem C2_ten_slots_one_table:
  assumes "length recs = 10"
    and "\<forall>r \<in> set recs. length r = 16 \<and> read_slot16 r 0 \<noteq> None"
    and "length bad = 16" and "read_slot16 bad 0 = None"
  shows "find_slot16_tables (concat recs @ bad) =
     [map (\<lambda>k. (16 * k, the (read_slot16 (recs ! k) 0))) [0..<10]]"
proof -
  let ?data = "concat recs @ bad"
  let ?tab = "map (\<lambda>k. (16 * k, the (read_slot16 (recs ! k) 0))) [0..<10]"
  have len: "length ?data = 176"
    using length_concat_slots [OF assms(2)] assms(1,3) by simp
  have run: "slot_loop ?data [] 0 = (?tab, 160)"
    using slot_loop_run [OF assms(2-4), of "[]" "[]"] assms(1) by simp
  have "find_body ?data ([], 0) = ([?tab], 160)"
    by (simp add: find_body_def run)
  then have "find_loop ?data ([], 0) = find_loop ?data ([?tab], 160)"
    using len by (simp add: find_loop.simps [of _ "[]" 0])
  also have "\<dots> = [?tab]"
    using len by (simp add: find_loop.simps [of _ _ 160])
  finally show ?thesis by (simp add: find_slot16_tables_def)
qed

theorem C2_ten_slots_one_table_witness:
  "read_slot16 ([3, 65, 98, 99] @ replicate 12 0) 0 = Some ''Abc''
   \<and> read_slot16 (replicate 16 0) 0 = None
   \<and> find_slot16_tables (concat (replicate 10 ([3, 65, 98, 99] @ replicate 12 0)) @ replicate 16 0)
     = [map (\<lambda>k. (16 * k, ''Abc'')) [0..<10]]"
proof -
  let ?r = "[3, 65, 98, 99] @ replicate 12 (0 :: byte)"
  have h1: "read_slot16 ?r 0 = Some ''Abc''" by code_simp
  have h2: "read_slot16 (replicate 16 0) 0 = None" by code_simp
  have a: "length (replicate 10 ?r) = 10" by simp
  have b: "\<forall>r \<in> set (replicate 10 ?r). length r = 16 \<and> read_slot16 r 0 \<noteq> None"
    using h1 by simp
  have c: "length (replicate 16 (0 :: byte)) = 16" by simp
  have "map (\<lambda>k. (16 * k, the (read_slot16 (replicate 10 ?r ! k) 0))) [0..<10]
      = map (\<lambda>k. (16 * k, ''Abc'')) [0..<10]"
    using h1 by (intro map_cong) simp_all
  with C2_ten_slots_one_table [OF a b c h2] h1 h2 show ?thesis by simp
qed

section \<open>Properties of the unaligned Pascal scanner\<close>

lemma pascal_body_out:
  "pascal_body data mn mx (out, i) =
     (out @ fst (pascal_body data mn mx ([], i)), snd (pascal_body data mn mx ([], i)))"
  by (simp add: pascal_body_def Let_def)

lemma pascal_body_emits:
  "pascal_body data mn mx ([], i) = (e, i') \<Longrightarrow> i < i' \<and> (\<forall>(ofs, t) \<in> set e. ofs = i)"
  by (auto simp: pascal_body_def Let_def split: if_splits)

lemma pascal_loop_out:
  "pascal_loop data mn mx (out, i) = out @ pascal_loop data mn mx ([], i)"
proof (induction "length data - i" arbitrary: out i rule: less_induct)
  case less
  show ?case
  proof (cases "i + 2 < length data")
    case False
    then show ?thesis by (simp add: pascal_loop.simps [of _ _ _ _ i])
  next
    case True
    obtain e i' where b: "pascal_body data mn mx ([], i) = (e, i')"
      by (cases "pascal_body data mn mx ([], i)")
    have b': "pascal_body data mn mx (out, i) = (out @ e, i')"
      using pascal_body_out [of data mn mx out i] b by simp
    from pascal_body_emits [OF b] have "i < i'" by simp
    with True have m: "length data - i' < length data - i" by arith
    have "pascal_loop data mn mx (out @ e, i') = (out @ e) @ pascal_loop data mn mx ([], i')"
      by (rule less.hyps [OF m])
    moreover have "pascal_loop data mn mx (e, i') = e @ pascal_loop data mn mx ([], i')"
      by (rule less.hyps [OF m])
    ultimately show ?thesis
      using True b b' by (simp add: pascal_loop.simps [of _ _ _ _ i])
  qed
qed

lemma pascal_loop_offsets:
  "\<forall>(ofs, t) \<in> set (pascal_loop data mn mx ([], i)). i \<le> ofs"
proof (induction "length data - i" arbitrary: i rule: less_induct)
  case less
  show ?case
  proof (cases "i + 2 < length data")
    case False
    then show ?thesis by (simp add: pascal_loop.simps [of _ _ _ _ i])
  next
    case True
    obtain e i' where b: "pascal_body data mn mx ([], i) = (e, i')"
      by (cases "pascal_body data mn mx ([], i)")
    from pascal_body_emits [OF b] have i': "i < i'" and e: "\<forall>(ofs, t) \<in> set e. ofs = i"
      by simp_all
    from i' True have m: "length data - i' < length data - i" by arith
    have "pascal_loop data mn mx ([], i) = e @ pascal_loop data mn mx ([], i')"
      using True b pascal_loop_out [of data mn mx e i']
      by (simp add: pascal_loop.simps [of _ _ _ _ i])
    moreover have "\<forall>(ofs, t) \<in> set (pascal_loop data mn mx ([], i')). i' \<le> ofs"
      by (rule less.hyps [OF m])
    ultimately show ?thesis using i' e by fastforce
  qed
qed

lemma pascal_reach_before:
  "pascal_reach data mn mx st \<Longrightarrow> \<forall>(ofs, t) \<in> set (fst st). ofs < snd st"
proof (induction rule: pascal_reach.induct)
  case start
  then show ?case by simp
next
  case (pass st)
  obtain out i where st: "st = (out, i)" by (cases st)
  obtain e i' where b: "pascal_body data mn mx ([], i) = (e, i')"
    by (cases "pascal_body data mn mx ([], i)")
  from pascal_body_emits [OF b] have "i < i'" "\<forall>(ofs, t) \<in> set e. ofs = i" by simp_all
  moreover have "pascal_body data mn mx st = (out @ e, i')"
    using pascal_body_out [of data mn mx out i] b by (simp add: st)
  ultimately show ?case using pass.IH by (fastforce simp: st)
qed

lemma pascal_reach_loop:
  "pascal_reach data mn mx st \<Longrightarrow> pascal_loop data mn mx st = extract_pascal_strings data mn mx"
proof (induction rule: pascal_reach.induct)
  case start
  then show ?case by (simp add: extract_pascal_strings_def)
next
  case (pass st)
  obtain out i where st: "st = (out, i)" by (cases st)
  from pass.hyps(2) have "pascal_loop data mn mx (out, i)
      = pascal_loop data mn mx (pascal_body data mn mx (out, i))"
    by (simp add: st pascal_loop.simps [of _ _ _ out i])
  with pass.IH show ?case by (simp add: st)
qed

lemma pascal_reach_zeros:
  assumes "0 < min_len"
  shows "i \<le> n \<Longrightarrow> n + 2 < length (replicate n 0 @ rest) \<Longrightarrow>
     pascal_reach (replicate n 0 @ rest) min_len max_len ([], i)"
proof (induction i)
  case 0
  show ?case by (rule pascal_reach.start)
next
  case (Suc i)
  let ?d = "replicate n (0 :: byte) @ rest"
  from Suc have r: "pascal_reach ?d min_len max_len ([], i)" by simp
  from Suc.prems have "snd ([] :: (nat \<times> string) list, i) + 2 < length ?d" by simp
  from pascal_reach.pass [OF r this]
  have "pascal_reach ?d min_len max_len (pascal_body ?d min_len max_len ([], i))" .
  moreover have "?d ! i = 0" using Suc.prems by (simp add: nth_append)
  then have "pascal_body ?d min_len max_len ([], i) = ([], Suc i)"
    using assms by (simp add: pascal_body_def)
  ultimately show ?case by simp
qed

text \<open>
  Claim C8, as the code has it. Let the scan have reached cursor \<open>p\<close>, inside the loop;
  \<open>L\<close> is the byte at \<open>p\<close>. If \<open>L\<close> is in the configured range, the \<open>L\<close> bytes after it are
  inside the buffer and are all printable name bytes, and their stripped text \<open>s\<close> has a
  letter, then the pass emits the one token \<open>(p, s)\<close> and moves the cursor to \<open>p + 1 + L\<close>,
  and the output of the scan has no other token at an offset from \<open>p\<close> up to \<open>p + 1 + L\<close>.
  If the bytes are printable but hold no letter, nothing is emitted and the cursor still
  moves to \<open>p + 1 + L\<close>. In every other case nothing is emitted and the cursor moves by
  exactly one byte.
\<close>

theorem C8_pascal_cursor:
  fixes data :: "byte list" and min_len max_len :: int and p :: nat
  defines "L \<equiv> unat (data ! p)"
  defines "sbytes \<equiv> take L (drop (p + 1) data)"
  defines "s \<equiv> strip (decode_cp437 sbytes)"
  defines "fits \<equiv> min_len \<le> int L \<and> int L \<le> max_len \<and> p + 1 + L \<le> length data"
  assumes "pascal_reach data min_len max_len (out, p)" and "p + 2 < length data"
  shows "(fits \<and> is_printable_name_bytes sbytes \<and> list_ex isalpha s \<longrightarrow>
            pascal_body data min_len max_len (out, p) = (out @ [(p, s)], p + 1 + L)
          \<and> filter (\<lambda>(ofs, t). p \<le> ofs \<and> ofs < p + 1 + L)
               (extract_pascal_strings data min_len max_len) = [(p, s)])
       \<and> (fits \<and> is_printable_name_bytes sbytes \<and> \<not> list_ex isalpha s \<longrightarrow>
            pascal_body data min_len max_len (out, p) = (out, p + 1 + L))
       \<and> (\<not> (fits \<and> is_printable_name_bytes sbytes) \<longrightarrow>
            pascal_body data min_len max_len (out, p) = (out, p + 1))"
proof (intro conjI impI)
  assume a: "fits \<and> is_printable_name_bytes sbytes \<and> list_ex isalpha s"
  then show b: "pascal_body data min_len max_len (out, p) = (out @ [(p, s)], p + 1 + L)"
    by (simp add: pascal_body_def Let_def L_def sbytes_def s_def fits_def)
  have "extract_pascal_strings data min_len max_len = pascal_loop data min_len max_len (out, p)"
    using pascal_reach_loop [OF assms(5)] by simp
  also have "\<dots> = out @ (p, s) # pascal_loop data min_len max_len ([], p + 1 + L)"
    using assms(6) b pascal_loop_out [of data min_len max_len "out @ [(p, s)]" "p + 1 + L"]
    by (simp add: pascal_loop.simps [of _ _ _ _ p])
  finally have e: "extract_pascal_strings data min_len max_len
      = out @ (p, s) # pascal_loop data min_len max_len ([], p + 1 + L)" .
  have "filter (\<lambda>(ofs, t). p \<le> ofs \<and> ofs < p + 1 + L) out = []"
    using pascal_reach_before [OF assms(5)] by (auto simp: filter_empty_conv)
  moreover have "filter (\<lambda>(ofs, t). p \<le> ofs \<and> ofs < p + 1 + L)
      (pascal_loop data min_len max_len ([], p + 1 + L)) = []"
    using pascal_loop_offsets [of data min_len max_len "p + 1 + L"]
    by (auto simp: filter_empty_conv)
  ultimately show "filter (\<lambda>(ofs, t). p \<le> ofs \<and> ofs < p + 1 + L)
      (extract_pascal_strings data min_len max_len) = [(p, s)]"
    by (simp add: e)
next
  assume "fits \<and> is_printable_name_bytes sbytes \<and> \<not> list_ex isalpha s"
  then show "pascal_body data min_len max_len (out, p) = (out, p + 1 + L)"
    by (simp add: pascal_body_def Let_def L_def sbytes_def s_def fits_def)
next
  assume "\<not> (fits \<and> is_printable_name_bytes sbytes)"
  then show "pascal_body data min_len max_len (out, p) = (out, p + 1)"
    by (auto simp add: pascal_body_def Let_def L_def sbytes_def s_def fits_def)
qed

text \<open>
  The scenario of the specification: \<open>"\x08AberdeenXYZ"\<close> at offset 1500, here behind 1500
  zero bytes.
\<close>

lemma aberdeen_bytes:
  "is_printable_name_bytes [65, 98, 101, 114, 100, 101, 101, 110]"
  "strip (decode_cp437 [65, 98, 101, 114, 100, 101, 101, 110]) = ''Aberdeen''"
  "list_ex isalpha ''Aberdeen''"
  by code_simp+

theorem C8_pascal_cursor_witness:
  "pascal_reach (replicate 1500 0 @ [8, 65, 98, 101, 114, 100, 101, 101, 110, 88, 89, 90])
       3 24 ([], 1500)
   \<and> pascal_body (replicate 1500 0 @ [8, 65, 98, 101, 114, 100, 101, 101, 110, 88, 89, 90])
       3 24 ([], 1500)
     = ([(1500, ''Aberdeen'')], 1509)
   \<and> filter (\<lambda>(ofs, t). 1500 \<le> ofs \<and> ofs < 1509)
       (extract_pascal_strings
          (replicate 1500 0 @ [8, 65, 98, 101, 114, 100, 101, 101, 110, 88, 89, 90]) 3 24)
     = [(1500, ''Aberdeen'')]"
proof -
  let ?d = "replicate 1500 (0 :: byte) @ [8, 65, 98, 101, 114, 100, 101, 101, 110, 88, 89, 90]"
  have L: "unat (?d ! 1500) = 8" by (simp add: nth_append)
  have sb: "take 8 (drop (1500 + 1) ?d) = [65, 98, 101, 114, 100, 101, 101, 110]" by simp
  have r: "pascal_reach ?d 3 24 ([], 1500)"
    by (rule pascal_reach_zeros) simp_all
  have h: "1500 + 2 < length ?d" by simp
  from C8_pascal_cursor [OF r h] r show ?thesis
    by (simp only: L sb aberdeen_bytes) simp
qed

text \<open>
  The claim as stated fails in its last part. With length byte 3 before three spaces the
  candidate fails (no token is emitted), and the cursor moves by 4. With the range 1..40,
  the failed candidate at offset 0 (one space) moves the cursor to 2, so the valid
  candidate at offset 1 (length byte 32 before 32 letters) is never tried and the output
  is empty.
\<close>

theorem C8_failed_candidate_counterexample:
  "pascal_body [3, 32, 32, 32, 0, 0, 0, 0] 3 24 ([], 0) = ([], 4)
   \<and> extract_pascal_strings ([1, 32] @ replicate 32 65 @ [0, 0, 0]) 1 40 = []
   \<and> pascal_body ([1, 32] @ replicate 32 65 @ [0, 0, 0]) 1 40 ([], 0) = ([], 2)
   \<and> pascal_body ([1, 32] @ replicate 32 65 @ [0, 0, 0]) 1 40 ([], 1)
       = ([(1, replicate 32 CHR ''A'')], 34)"
  by code_simp

section \<open>Properties of the block mapper\<close>

lemma py_slice_inside:
  assumes "0 \<le> a" "a \<le> b" "b \<le> int (length xs)"
  shows "py_slice xs a b = take (nat (b - a)) (drop (nat a) xs)"
    and "length (py_slice xs a b) = nat (b - a)"
proof -
  have "py_slice xs a b = drop (nat a) (take (nat b) xs)"
    using assms by (simp add: py_slice_def Let_def min_def)
  moreover have "drop (nat a) (take (nat b) xs) = take (nat b - nat a) (drop (nat a) xs)"
    by (simp add: drop_take)
  moreover have "nat b - nat a = nat (b - a)" using assms by arith
  ultimately show "py_slice xs a b = take (nat (b - a)) (drop (nat a) xs)" by simp
  then show "length (py_slice xs a b) = nat (b - a)" using assms by simp
qed

lemma squadA_Some:
  assumes "0 \<le> chunkA" "squadA tokens sti chunkA offsetA i = Some w"
  shows "length w = nat chunkA \<and> 0 \<le> offsetA + (i - sti) * chunkA
     \<and> offsetA + (i - sti) * chunkA + chunkA \<le> int (length tokens)
     \<and> w = take (nat chunkA) (drop (nat (offsetA + (i - sti) * chunkA)) tokens)"
proof -
  let ?start = "offsetA + (i - sti) * chunkA"
  from assms(2) have b: "0 \<le> ?start" "?start + chunkA \<le> int (length tokens)"
    and w: "w = py_slice tokens ?start (?start + chunkA)"
    by (auto simp: squadA_def Let_def split: if_splits)
  from py_slice_inside [OF b(1) _ b(2)] assms(1) w show ?thesis using b by simp
qed

lemma squadA_None:
  "offsetA + (i - sti) * chunkA < 0 \<or> offsetA + (i - sti) * chunkA + chunkA > int (length tokens)
   \<Longrightarrow> squadA tokens sti chunkA offsetA i = None"
  by (auto simp: squadA_def Let_def)

lemma blocksB_step_ok:
  assumes "list_all (block_ok tokens chunkB) (fst st)"
  shows "list_all (block_ok tokens chunkB) (fst (blocksB_step tokens chunkB st bstart))"
proof -
  obtain blocksB block_id stopped where st: "st = (blocksB, block_id, stopped)"
    by (cases st)
  have "length (py_slice tokens (int bstart) (int (bstart + chunkB))) = chunkB
      \<and> py_slice tokens (int bstart) (int (bstart + chunkB)) = take chunkB (drop bstart tokens)"
    if "bstart + chunkB \<le> length tokens"
    using py_slice_inside [of "int bstart" "int (bstart + chunkB)" tokens] that by simp
  with assms show ?thesis
    by (auto simp: st Let_def block_ok_def)
qed

lemma blocksB_loop_ok:
  "list_all (block_ok tokens chunkB) (fst st) \<Longrightarrow>
   list_all (block_ok tokens chunkB) (fst (foldl (blocksB_step tokens chunkB) st starts))"
  by (induction starts arbitrary: st) (simp_all add: blocksB_step_ok del: blocksB_step.simps)

lemma build_blocksB_ok:
  assumes "0 < chunkB"
  shows "\<exists>bs. build_blocksB tokens offsetB chunkB = Inr bs
     \<and> (\<forall>(block_id, bstart, blk) \<in> set bs. length blk = chunkB \<and> bstart + chunkB \<le> length tokens
          \<and> blk = take chunkB (drop bstart tokens))"
proof -
  let ?bs = "fst (foldl (blocksB_step tokens chunkB) ([], 0, False)
                       (py_range offsetB (int (length tokens)) chunkB))"
  have "build_blocksB tokens offsetB chunkB = Inr ?bs"
    using assms by (simp add: build_blocksB_def)
  moreover have "list_all (block_ok tokens chunkB) ?bs"
    by (rule blocksB_loop_ok) simp
  ultimately show ?thesis
    by (auto simp: list_all_iff block_ok_def)
qed

text \<open>
  Claim C4. For a block size that is not negative, a window that \<open>squadA\<close> returns has
  exactly \<open>chunkA\<close> tokens, starts at \<open>offsetA + (i - start_team_index) * chunkA\<close>, which is
  not negative, and ends inside the token stream; when that start is negative or the
  window would end behind the stream, \<open>squadA\<close> returns \<open>None\<close>, which is not an error. For a
  positive block size the sequential mode returns a list of blocks, and every block in
  it has exactly \<open>chunkB\<close> tokens and lies inside the stream.
\<close>

theorem C4_block_windows:
  assumes "0 \<le> chunkA" and "0 < chunkB"
  shows "(\<forall>w. squadA tokens start_team_index chunkA offsetA i = Some w \<longrightarrow>
            length w = nat chunkA \<and> 0 \<le> offsetA + (i - start_team_index) * chunkA
          \<and> offsetA + (i - start_team_index) * chunkA + chunkA \<le> int (length tokens)
          \<and> w = take (nat chunkA)
                  (drop (nat (offsetA + (i - start_team_index) * chunkA)) tokens))
       \<and> (offsetA + (i - start_team_index) * chunkA < 0
            \<or> offsetA + (i - start_team_index) * chunkA + chunkA > int (length tokens)
          \<longrightarrow> squadA tokens start_team_index chunkA offsetA i = None)
       \<and> (\<exists>bs. build_blocksB tokens offsetB chunkB = Inr bs
            \<and> (\<forall>(block_id, bstart, blk) \<in> set bs.
                  length blk = chunkB \<and> bstart + chunkB \<le> length tokens
                \<and> blk = take chunkB (drop bstart tokens)))"
  using squadA_Some [OF assms(1)] squadA_None build_blocksB_ok [OF assms(2)]
  by blast

text \<open>The constants of the source: 21 tokens from index 7 with bias -2, and blocks of 16 from 10.\<close>

theorem C4_block_windows_witness:
  "squadA (replicate 40 ''Ab'') 7 21 (- 2) 8 = Some (replicate 21 ''Ab'')
   \<and> length (replicate 21 ''Ab'') = nat 21
   \<and> squadA (replicate 40 ''Ab'') 7 21 (- 2) 7 = None
   \<and> build_blocksB (replicate 40 ''Ab'') 10 16 = Inr [(0, 10, replicate 16 ''Ab'')]"
proof -
  have e1: "squadA (replicate 40 ''Ab'') 7 21 (- 2) 8 = Some (replicate 21 ''Ab'')"
    by code_simp
  have e2: "build_blocksB (replicate 40 ''Ab'') 10 16 = Inr [(0, 10, replicate 16 ''Ab'')]"
    by code_simp
  have h: "(0 :: int) \<le> 21" "(0 :: nat) < 16" by simp_all
  from C4_block_windows [OF h, of "replicate 40 ''Ab''" 7 "- 2" 7 10]
  have "squadA (replicate 40 ''Ab'') 7 21 (- 2) 7 = None" by simp
  moreover from C4_block_windows [OF h, of "replicate 40 ''Ab''" 7 "- 2" 8 10] e1
  have "length (replicate 21 ''Ab'') = nat 21" by simp
  ultimately show ?thesis using e1 e2 by simp
qed

section \<open>Properties of the numeric table solver\<close>

lemma unpack_u16_length: "unpack_u16 n data off = Some vals \<Longrightarrow> length vals = n"
  by (auto simp: unpack_u16_def split: if_splits)

subsection \<open>The scanned offsets\<close>




subsection \<open>The error of one candidate\<close>

lemma abs_error_sum_valid:
  "\<forall>(idx, val) \<in> set truth. 0 \<le> idx \<and> idx < int (length pred) \<Longrightarrow>
   abs_error_sum pred truth err = Inr (err + abs_err pred truth)"
proof (induction truth arbitrary: err)
  case Nil
  then show ?case by (simp add: abs_err_def)
next
  case (Cons a truth)
  obtain idx val where a: "a = (idx, val)" by (cases a)
  with Cons.prems have i: "0 \<le> idx" "idx < int (length pred)" by simp_all
  then have "py_index pred idx = Inr (pred ! nat idx)" by (simp add: py_index_def)
  moreover from Cons.prems have "\<forall>(idx, val) \<in> set truth. 0 \<le> idx \<and> idx < int (length pred)"
    by simp
  ultimately show ?case using Cons.IH by (simp add: a abs_err_def)
qed

lemma mean_abs_error_valid:
  "\<forall>(idx, val) \<in> set truth. 0 \<le> idx \<and> idx < int (length pred) \<Longrightarrow>
   mean_abs_error pred truth = Inr (mae_val pred truth)"
  by (simp add: mean_abs_error_def abs_error_sum_valid py_truediv_def mae_val_def)







subsection \<open>The candidates recorded by the loops\<close>

lemma py_min_max_nonempty:
  "xs \<noteq> [] \<Longrightarrow> py_min xs = Inr (fold min (tl xs) (hd xs))"
  "xs \<noteq> [] \<Longrightarrow> py_max xs = Inr (fold max (tl xs) (hd xs))"
  by (cases xs; simp add: py_min_def py_max_def)+

lemma scale_loop_valid:
  assumes "vals \<noteq> []" "\<forall>(idx, val) \<in> set truth. 0 \<le> idx \<and> idx < int (length vals)"
  shows "scale_loop vals truth off out ks = Inr (out @ map (cand truth off vals) ks)"
proof (induction ks arbitrary: out)
  case Nil
  then show ?case by simp
next
  case (Cons k ks)
  have ne: "map (\<lambda>v. v * k) vals \<noteq> []" using assms(1) by simp
  have "mean_abs_error (map (\<lambda>v. v * k) vals) truth = Inr (mae_val (map (\<lambda>v. v * k) vals) truth)"
    using assms(2) by (intro mean_abs_error_valid) simp
  then show ?case
    using Cons.IH by (simp add: py_min_max_nonempty [OF ne] cand_def Let_def)
qed

lemma offset_loop_valid:
  assumes "0 < n" "\<forall>(idx, val) \<in> set truth. 0 \<le> idx \<and> idx < int n"
  shows "offset_loop data n truth scales out offs
     = Inr (out @ concat (map (cands data n truth scales) offs))"
proof (induction offs arbitrary: out)
  case Nil
  then show ?case by simp
next
  case (Cons off offs)
  show ?case
  proof (cases "unpack_u16 n data off")
    case None
    then show ?thesis using Cons.IH by (simp add: cands_def)
  next
    case (Some vals)
    then have len: "length vals = n" by (rule unpack_u16_length)
    with assms have ne: "vals \<noteq> []" by auto
    then obtain v vs where v: "vals = v # vs" by (cases vals) auto
    have mx: "py_max vals = Inr (fold max vs v)" by (simp add: py_max_def v)
    have "\<forall>(idx, val) \<in> set truth. 0 \<le> idx \<and> idx < int (length vals)"
      using assms(2) len by simp
    from scale_loop_valid [OF ne this] Cons.IH Some mx show ?thesis
      by (simp add: cands_def)
  qed
qed





lemma cands_keys:
  "map (\<lambda>c. (offset c, scale c)) (cands data n truth scales off) =
     (case unpack_u16 n data off of
        None \<Rightarrow> []
      | Some vals \<Rightarrow> if py_max vals = Inr 0 then [] else map (\<lambda>k. (off, k)) scales)"
  by (simp add: cands_def cand_def split: option.splits)

lemma cands_mae_empty: "c \<in> set (cands data n [] scales off) \<Longrightarrow> mae c = 0"
  by (auto simp: cands_def cand_def mae_val_def abs_err_def split: option.splits if_splits)

subsection \<open>The stable sort\<close>






lemma sort_key_all_equal:
  assumes "\<forall>x \<in> set xs. f x = c"
  shows "sort_key f xs = xs"
proof -
  have "map f xs = replicate (length xs) c"
    using assms by (simp add: map_replicate_const [symmetric] cong: map_cong)
  then have "sorted (map f xs)" by simp
  then show ?thesis by (rule sort_key_id_if_sorted)
qed

subsection \<open>The ranking\<close>

text \<open>
  Claim C10. With an empty anchor map, a positive entity count and a positive step, the
  solver returns a ranking (no error is raised: the divisor of the mean is
  \<open>max(1, 0) = 1\<close>). Every candidate in it has error 0, and the ranking lists, in scan
  order, every scale for every offset of the range whose array is not all zero.
\<close>

theorem C10_empty_truth:
  assumes "0 < n" and "0 < step"
  shows "\<exists>out. solve_u16_scaled_tables data n [] scales search_start search_end step = Inr out
     \<and> (\<forall>c \<in> set out. mae c = 0)
     \<and> map (\<lambda>c. (offset c, scale c)) out =
         concat (map (\<lambda>off. case unpack_u16 n data off of
                               None \<Rightarrow> []
                             | Some vals \<Rightarrow> if py_max vals = Inr 0 then []
                                            else map (\<lambda>k. (off, k)) scales)
           (py_range search_start
              (min (int (case search_end of None \<Rightarrow> length data | Some e \<Rightarrow> e))
                   (int (length data) - int (2 * n)))
              step))"
proof -
  let ?offs = "py_range search_start
              (min (int (case search_end of None \<Rightarrow> length data | Some e \<Rightarrow> e))
                   (int (length data) - int (2 * n))) step"
  let ?out = "concat (map (cands data n [] scales) ?offs)"
  have z: "\<forall>c \<in> set ?out. mae c = 0" by (auto simp: cands_mae_empty)
  have "solve_u16_scaled_tables data n [] scales search_start search_end step
      = Inr (sort_key mae ?out)"
    using assms(2) offset_loop_valid [OF assms(1), of "[]" data scales "[]"]
    by (simp add: solve_u16_scaled_tables_def Let_def)
  also have "sort_key mae ?out = ?out" using z by (rule sort_key_all_equal)
  finally have "solve_u16_scaled_tables data n [] scales search_start search_end step = Inr ?out" .
  moreover have "map (\<lambda>c. (offset c, scale c)) ?out =
      concat (map (\<lambda>off. case unpack_u16 n data off of
                               None \<Rightarrow> []
                             | Some vals \<Rightarrow> if py_max vals = Inr 0 then []
                                            else map (\<lambda>k. (off, k)) scales) ?offs)"
    by (simp add: map_concat comp_def cands_keys)
  ultimately show ?thesis using z by blast
qed

theorem C10_empty_truth_witness:
  "\<exists>out. solve_u16_scaled_tables [1, 0, 2, 0, 3, 0] 2 [] [1, 10] 0 None 1 = Inr out
     \<and> list_all (\<lambda>c. mae c = 0) out
     \<and> map (\<lambda>c. (offset c, scale c)) out = [(0, 1), (0, 10), (1, 1), (1, 10)]"
proof -
  let ?d = "[1, 0, 2, 0, 3, 0] :: byte list"
  have h: "0 < (2 :: nat)" "0 < (1 :: nat)" by simp_all
  from C10_empty_truth [OF h, of ?d "[1, 10]" 0 None]
  obtain out where o: "solve_u16_scaled_tables ?d 2 [] [1, 10] 0 None 1 = Inr out"
      "\<forall>c \<in> set out. mae c = 0"
      "map (\<lambda>c. (offset c, scale c)) out =
         concat (map (\<lambda>off. case unpack_u16 2 ?d off of
                               None \<Rightarrow> []
                             | Some vals \<Rightarrow> if py_max vals = Inr 0 then []
                                            else map (\<lambda>k. (off, k)) [1, 10])
           (py_range 0
              (min (int (case None of None \<Rightarrow> length ?d | Some e \<Rightarrow> e))
                   (int (length ?d) - int (2 * 2)))
              1))"
    by blast
  have e: "concat (map (\<lambda>off. case unpack_u16 2 ?d off of
                               None \<Rightarrow> []
                             | Some vals \<Rightarrow> if py_max vals = Inr 0 then []
                                            else map (\<lambda>k. (off, k)) [1, 10])
           (py_range 0
              (min (int (case None of None \<Rightarrow> length ?d | Some e \<Rightarrow> e))
                   (int (length ?d) - int (2 * 2)))
              1)) = [(0, 1 :: int), (0, 10), (1, 1), (1, 10)]"
    by code_simp
  from o e show ?thesis by (auto simp: list_all_iff)
qed




text \<open>
  The range of the scan ends before \<open>len(data) - 2 * n\<close>: an array that fills the buffer
  to its last byte is not visited.
\<close>

lemma solve_last_offset_not_visited:
  "unpack_u16 64 ([1, 0] @ replicate 126 0) 0 = Some (1 # replicate 63 0)
   \<and> solve_u16_scaled_tables ([1, 0] @ replicate 126 0) 64 [(0, 1)] [1] 0 None 1 = Inr []"
  by code_simp

end
